theory Spec2Isabelle
  imports Main "HOL-Library.Word" "HOL-Library.Code_Target_Nat"
begin

unbundle bit_operations_syntax

section \<open>Memory objects, faults and C integers\<close>

text \<open>
  A pointer argument of the C code is modelled by the bytes of the object it points into,
  from the pointed-to byte up to the end of that object (\<open>p + k\<close> is \<open>drop k\<close>). A pointer
  that the code compares with \<open>NULL\<close> is a \<open>char list option\<close>, \<open>None\<close> being \<open>NULL\<close>.
  Every access goes through \<open>rd\<close> and \<open>wr\<close>: an access outside the object, or through
  \<open>NULL\<close>, is a fault, and a fault ends the run.
\<close>

datatype fault = NullDeref | OutOfBounds

abbreviation NUL :: char where
  "NUL \<equiv> CHR 0x00"

definition rd :: "char list \<Rightarrow> nat \<Rightarrow> fault + char" where
  "rd m i = (if i < length m then Inr (m ! i) else Inl OutOfBounds)"

definition wr :: "char list \<Rightarrow> nat \<Rightarrow> char \<Rightarrow> fault + char list" where
  "wr m i c = (if i < length m then Inr (m[i := c]) else Inl OutOfBounds)"

text \<open>The string an object holds: its bytes before the first zero byte.\<close>

fun c_string :: "char list \<Rightarrow> char list" where
  "c_string [] = []"
| "c_string (c # m) = (if c = NUL then [] else c # c_string m)"

text \<open>\<open>size_t\<close> is an unsigned 64-bit integer, kept as a \<open>nat\<close>; \<open>--dsize\<close> and
  \<open>dsize--\<close> wrap at 0 to \<open>SIZE_MAX\<close>.\<close>

definition size_dec :: "nat \<Rightarrow> nat" where
  "size_dec n = (if n = 0 then 2 ^ 64 - 1 else n - 1)"

text \<open>The cast \<open>(int)x\<close> of a \<open>size_t\<close> or pointer difference: reduction to 32 bits, two's
  complement.\<close>

definition int_cast :: "nat \<Rightarrow> int" where
  "int_cast n = (let m = int n mod 2 ^ 32 in if m < 2 ^ 31 then m else m - 2 ^ 32)"

text \<open>The conversion of an \<open>int\<close> to \<open>size_t\<close> (the third argument of \<open>strncpy\<close>).\<close>

definition size_cast :: "int \<Rightarrow> nat" where
  "size_cast i = nat (i mod 2 ^ 64)"

text \<open>The integer promotion of a \<open>char\<close>. Whether plain \<open>char\<close> is signed is left to the
  platform by the C standard, so it is a parameter.\<close>

definition int_of_char :: "bool \<Rightarrow> char \<Rightarrow> int" where
  "int_of_char char_signed c =
     (if char_signed \<and> 128 \<le> (of_char c :: int) then of_char c - 256 else of_char c)"

subsection \<open>Library functions used by the code (C locale)\<close>

text \<open>These functions belong to the C library, not to \<open>aiutils.c\<close>. They are modelled as
  the C standard describes them, in the C locale, on the memory objects above.\<close>

text \<open>\<open>tolower\<close> takes an \<open>int\<close>. \<open>strcmpii\<close> passes it a plain \<open>char\<close> without a cast, so
  with a signed \<open>char\<close> the bytes \<open>0x80\<close> to \<open>0xFF\<close> arrive as \<open>-128\<close> to \<open>-1\<close>. The library's
  table covers these: a value from \<open>-128\<close> to \<open>-2\<close> gives the entry of the same byte read as
  unsigned (\<open>c + 256\<close>, no letter in the C locale), and \<open>-1\<close>, which is \<open>EOF\<close>, is returned
  as it is.\<close>

definition tolower :: "int \<Rightarrow> int" where
  "tolower c =
     (if - 128 \<le> c \<and> c \<le> - 2 then c + 256
      else if 65 \<le> c \<and> c \<le> 90 then c + 32
      else c)"

definition isspace :: "char \<Rightarrow> bool" where
  "isspace c \<longleftrightarrow> c \<in> set [CHR '' '', CHR 0x09, CHR 0x0A, CHR 0x0B, CHR 0x0C, CHR 0x0D]"

definition isdigit :: "char \<Rightarrow> bool" where
  "isdigit c \<longleftrightarrow> c \<in> set ''0123456789''"

text \<open>\<open>strlen\<close>: the offset of the first zero byte.\<close>

function strlen_from :: "char list \<Rightarrow> nat \<Rightarrow> fault + nat" where
  "strlen_from s i =
     (case rd s i of
        Inl e \<Rightarrow> Inl e
      | Inr c \<Rightarrow> if c = NUL then Inr i else strlen_from s (Suc i))"
  by pat_completeness auto
termination
  by (relation "measure (\<lambda>(s, i). length s - i)") (auto simp: rd_def split: if_splits)

declare strlen_from.simps [simp del]

definition strlen :: "char list \<Rightarrow> fault + nat" where
  "strlen s = strlen_from s 0"

text \<open>\<open>strncpy(dst, src, n)\<close>: copies up to the terminator of \<open>src\<close> or \<open>n\<close> bytes, then
  fills what is left of the \<open>n\<close> bytes with zero bytes.\<close>

function strncpy_pad :: "char list \<Rightarrow> nat \<Rightarrow> nat \<Rightarrow> fault + char list" where
  "strncpy_pad dst i n =
     (if i < n then
        (case wr dst i NUL of
           Inl e \<Rightarrow> Inl e
         | Inr dst' \<Rightarrow> strncpy_pad dst' (Suc i) n)
      else Inr dst)"
  by pat_completeness auto
termination
  by (relation "measure (\<lambda>(dst, i, n). n - i)") auto

declare strncpy_pad.simps [simp del]

function strncpy_loop :: "char list \<Rightarrow> char list \<Rightarrow> nat \<Rightarrow> nat \<Rightarrow> fault + char list" where
  "strncpy_loop dst src i n =
     (if i < n then
        (case rd src i of
           Inl e \<Rightarrow> Inl e
         | Inr c \<Rightarrow>
             if c = NUL then strncpy_pad dst i n
             else (case wr dst i c of
                     Inl e \<Rightarrow> Inl e
                   | Inr dst' \<Rightarrow> strncpy_loop dst' src (Suc i) n))
      else Inr dst)"
  by pat_completeness auto
termination
  by (relation "measure (\<lambda>(dst, src, i, n). n - i)") auto

declare strncpy_loop.simps [simp del]

definition strncpy :: "char list \<Rightarrow> char list \<Rightarrow> nat \<Rightarrow> fault + char list" where
  "strncpy dst src n = strncpy_loop dst src 0 n"

text \<open>\<open>strcspn(s, reject)\<close>: the offset of the first byte of \<open>s\<close> that is in \<open>reject\<close> or
  is the terminator.\<close>

function strcspn_from :: "char list \<Rightarrow> char list \<Rightarrow> nat \<Rightarrow> fault + nat" where
  "strcspn_from s reject i =
     (case rd s i of
        Inl e \<Rightarrow> Inl e
      | Inr c \<Rightarrow> if c = NUL \<or> c \<in> set reject then Inr i else strcspn_from s reject (Suc i))"
  by pat_completeness auto
termination
  by (relation "measure (\<lambda>(s, reject, i). length s - i)") (auto simp: rd_def split: if_splits)

declare strcspn_from.simps [simp del]

definition strcspn :: "char list \<Rightarrow> char list \<Rightarrow> fault + nat" where
  "strcspn s reject = strcspn_from s reject 0"

text \<open>
  \<open>strtoll(nptr, &endptr, 10)\<close> as the C standard describes it: white space is skipped,
  an optional sign is taken, then the longest run of decimal digits. With no digit there
  is no conversion: the value is 0, \<open>endptr\<close> is \<open>nptr\<close> and \<open>errno\<close> is left as it was
  (as glibc does). A value outside the range of \<open>long long\<close> is clamped and \<open>errno\<close>
  becomes \<open>ERANGE\<close>. The result is the value, the offset of \<open>endptr\<close> and \<open>errno\<close>.
\<close>

definition EINVAL :: int where "EINVAL = 22"
definition ERANGE :: int where "ERANGE = 34"
definition LLONG_MAX :: int where "LLONG_MAX = 2 ^ 63 - 1"
definition LLONG_MIN :: int where "LLONG_MIN = - (2 ^ 63)"

function skip_space :: "char list \<Rightarrow> nat \<Rightarrow> fault + nat" where
  "skip_space s i =
     (case rd s i of
        Inl e \<Rightarrow> Inl e
      | Inr c \<Rightarrow> if isspace c then skip_space s (Suc i) else Inr i)"
  by pat_completeness auto
termination
  by (relation "measure (\<lambda>(s, i). length s - i)") (auto simp: rd_def split: if_splits)

declare skip_space.simps [simp del]

function strtoll_digits :: "char list \<Rightarrow> nat \<Rightarrow> int \<Rightarrow> fault + (int \<times> nat)" where
  "strtoll_digits s i acc =
     (case rd s i of
        Inl e \<Rightarrow> Inl e
      | Inr c \<Rightarrow>
          if isdigit c
          then strtoll_digits s (Suc i) (10 * acc + (of_char c - of_char CHR ''0''))
          else Inr (acc, i))"
  by pat_completeness auto
termination
  by (relation "measure (\<lambda>(s, i, acc). length s - i)") (auto simp: rd_def split: if_splits)

declare strtoll_digits.simps [simp del]

definition strtoll :: "char list \<Rightarrow> int \<Rightarrow> fault + (64 word \<times> nat \<times> int)" where
  "strtoll nptr errno =
     (case skip_space nptr 0 of
        Inl e \<Rightarrow> Inl e
      | Inr i \<Rightarrow>
          (case rd nptr i of
             Inl e \<Rightarrow> Inl e
           | Inr c \<Rightarrow>
               let j = (if c = CHR ''-'' \<or> c = CHR ''+'' then Suc i else i) in
               (case strtoll_digits nptr j 0 of
                  Inl e \<Rightarrow> Inl e
                | Inr (acc, k) \<Rightarrow>
                    if k = j then Inr (0, 0, errno)
                    else
                      let v = (if c = CHR ''-'' then - acc else acc) in
                      if LLONG_MAX < v then Inr (word_of_int LLONG_MAX, k, ERANGE)
                      else if v < LLONG_MIN then Inr (word_of_int LLONG_MIN, k, ERANGE)
                      else Inr (word_of_int v, k, errno))))"

text \<open>
  A stream is the list of the bytes not yet read. \<open>fgetc\<close> gives the next byte as an
  \<open>int\<close>, or \<open>EOF\<close> at the end of the stream.
\<close>

definition EOF :: int where "EOF = - 1"

fun fgetc :: "char list \<Rightarrow> int \<times> char list" where
  "fgetc [] = (EOF, [])"
| "fgetc (c # stream) = (of_char c, stream)"

text \<open>
  \<open>fgets(buf, n, stream)\<close>: reads at most \<open>n - 1\<close> bytes, stops after a new-line (which
  is stored) or at the end of the stream, and writes a zero byte after the last byte read.
  At the end of the stream with nothing read it returns \<open>NULL\<close> and leaves \<open>buf\<close> as it
  was. The result is: whether the return value is \<open>buf\<close> (not \<open>NULL\<close>), the buffer and the
  stream.
\<close>

fun fgets_loop ::
  "char list \<Rightarrow> nat \<Rightarrow> nat \<Rightarrow> char list \<Rightarrow> fault + (bool \<times> char list \<times> char list)" where
  "fgets_loop buf i room [] =
     (if i = 0 then Inr (False, buf, [])
      else (case wr buf i NUL of
              Inl e \<Rightarrow> Inl e
            | Inr buf' \<Rightarrow> Inr (True, buf', [])))"
| "fgets_loop buf i room (c # stream) =
     (if room = 0 then
        (case wr buf i NUL of
           Inl e \<Rightarrow> Inl e
         | Inr buf' \<Rightarrow> Inr (True, buf', c # stream))
      else
        (case wr buf i c of
           Inl e \<Rightarrow> Inl e
         | Inr buf' \<Rightarrow>
             if c = CHR 0x0A then
               (case wr buf' (Suc i) NUL of
                  Inl e \<Rightarrow> Inl e
                | Inr buf'' \<Rightarrow> Inr (True, buf'', stream))
             else fgets_loop buf' (Suc i) (room - 1) stream))"

definition fgets ::
  "char list \<Rightarrow> int \<Rightarrow> char list \<Rightarrow> fault + (bool \<times> char list \<times> char list)" where
  "fgets buf n stream =
     (if n \<le> 0 then Inr (False, buf, stream)
      else if n = 1 then
        (case wr buf 0 NUL of
           Inl e \<Rightarrow> Inl e
         | Inr buf' \<Rightarrow> Inr (True, buf', stream))
      else fgets_loop buf 0 (nat (n - 1)) stream)"

section \<open>The functions of \<open>aiutils.c\<close>\<close>

subsection \<open>\<open>strzcpy\<close> and \<open>strzcat\<close>\<close>

text \<open>The loop \<open>while (*s && --dsize) *d++ = *s++;\<close> of \<open>strzcpy\<close> and \<open>strzcat\<close>, with
  \<open>pd\<close> and \<open>ps\<close> the offsets of the two running pointers. It gives the buffer and the
  final offset of \<open>d\<close>.\<close>

function strzcpy_loop ::
  "char list \<Rightarrow> nat \<Rightarrow> char list \<Rightarrow> nat \<Rightarrow> nat \<Rightarrow> fault + (char list \<times> nat)" where
  "strzcpy_loop d pd s ps dsize =
     (case rd s ps of
        Inl e \<Rightarrow> Inl e
      | Inr c \<Rightarrow>
          if c = NUL then Inr (d, pd)
          else if size_dec dsize = 0 then Inr (d, pd)
          else (case wr d pd c of
                  Inl e \<Rightarrow> Inl e
                | Inr d' \<Rightarrow> strzcpy_loop d' (Suc pd) s (Suc ps) (size_dec dsize)))"
  by pat_completeness auto
termination
  by (relation "measure (\<lambda>(d, pd, s, ps, dsize). length s - ps)")
     (auto simp: rd_def split: if_splits)

declare strzcpy_loop.simps [simp del]

definition strzcpy :: "char list \<Rightarrow> char list \<Rightarrow> nat \<Rightarrow> fault + char list" where
  "strzcpy d s dsize =
     (if dsize \<le> 0 then Inr d
      else case strzcpy_loop d 0 s 0 dsize of
             Inl e \<Rightarrow> Inl e
           | Inr (d', pd) \<Rightarrow> wr d' pd NUL)"

text \<open>The loop \<open>while (*d) dsize--, d++;\<close> of \<open>strzcat\<close>.\<close>

function strzcat_scan :: "char list \<Rightarrow> nat \<Rightarrow> nat \<Rightarrow> fault + (nat \<times> nat)" where
  "strzcat_scan d pd dsize =
     (case rd d pd of
        Inl e \<Rightarrow> Inl e
      | Inr c \<Rightarrow> if c \<noteq> NUL then strzcat_scan d (Suc pd) (size_dec dsize) else Inr (pd, dsize))"
  by pat_completeness auto
termination
  by (relation "measure (\<lambda>(d, pd, dsize). length d - pd)") (auto simp: rd_def split: if_splits)

declare strzcat_scan.simps [simp del]

definition strzcat :: "char list \<Rightarrow> char list \<Rightarrow> nat \<Rightarrow> fault + char list" where
  "strzcat d s dsize =
     (if dsize \<le> 1 then Inr d
      else case strzcat_scan d 0 dsize of
             Inl e \<Rightarrow> Inl e
           | Inr (pd, dsize') \<Rightarrow>
               (case strzcpy_loop d pd s 0 dsize' of
                  Inl e \<Rightarrow> Inl e
                | Inr (d', pd') \<Rightarrow> wr d' pd' NUL))"

subsection \<open>\<open>strcmpii\<close>\<close>

function strcmpii_loop :: "bool \<Rightarrow> char list \<Rightarrow> char list \<Rightarrow> nat \<Rightarrow> fault + int" where
  "strcmpii_loop char_signed s1 s2 i =
     (case rd s1 i of
        Inl e \<Rightarrow> Inl e
      | Inr c1 \<Rightarrow>
          (case rd s2 i of
             Inl e \<Rightarrow> Inl e
           | Inr c2 \<Rightarrow>
               if tolower (int_of_char char_signed c1) = tolower (int_of_char char_signed c2)
               then (if c1 = NUL then Inr 0 else strcmpii_loop char_signed s1 s2 (Suc i))
               else Inr (tolower (int_of_char char_signed c1)
                          - tolower (int_of_char char_signed c2))))"
  by pat_completeness auto
termination
  by (relation "measure (\<lambda>(char_signed, s1, s2, i). length s1 - i)")
     (auto simp: rd_def split: if_splits)

declare strcmpii_loop.simps [simp del]

definition strcmpii :: "bool \<Rightarrow> char list \<Rightarrow> char list \<Rightarrow> fault + int" where
  "strcmpii char_signed s1 s2 = strcmpii_loop char_signed s1 s2 0"

subsection \<open>\<open>fitoa\<close> and \<open>numzcat\<close>\<close>

text \<open>The loops \<open>for (...; p > s;) *--p = '*';\<close> and \<open>while (p > s) *--p = ' ';\<close>, with
  \<open>p\<close> the offset of the running pointer from \<open>s\<close>.\<close>

fun fitoa_fill :: "char list \<Rightarrow> nat \<Rightarrow> char \<Rightarrow> fault + char list" where
  "fitoa_fill s 0 c = Inr s"
| "fitoa_fill s (Suc p) c =
     (case wr s p c of
        Inl e \<Rightarrow> Inl e
      | Inr s' \<Rightarrow> fitoa_fill s' p c)"

text \<open>The \<open>do ... while (n)\<close> loop and what follows it.\<close>

function fitoa_loop :: "32 word \<Rightarrow> nat \<Rightarrow> char list \<Rightarrow> nat \<Rightarrow> fault + char list" where
  "fitoa_loop n wid s p =
     (if p \<le> 0 then fitoa_fill s wid (CHR ''*'')
      else
        (case wr s (p - 1) (char_of (of_char (CHR ''0'') + unat (n mod 10))) of
           Inl e \<Rightarrow> Inl e
         | Inr s' \<Rightarrow>
             if n div 10 \<noteq> 0 then fitoa_loop (n div 10) wid s' (p - 1)
             else fitoa_fill s' (p - 1) (CHR '' '')))"
  by pat_completeness auto
termination
  by (relation "measure (\<lambda>(n, wid, s, p). p)") auto

declare fitoa_loop.simps [simp del]

definition fitoa :: "32 word \<Rightarrow> nat \<Rightarrow> char list \<Rightarrow> fault + char list" where
  "fitoa n wid s =
     (case wr s wid NUL of
        Inl e \<Rightarrow> Inl e
      | Inr s' \<Rightarrow> fitoa_loop n wid s' wid)"

text \<open>The loop \<open>for (p = b; *p == ' '; p++);\<close> of \<open>numzcat\<close>.\<close>

function numzcat_skip :: "char list \<Rightarrow> nat \<Rightarrow> fault + nat" where
  "numzcat_skip b p =
     (case rd b p of
        Inl e \<Rightarrow> Inl e
      | Inr c \<Rightarrow> if c = CHR '' '' then numzcat_skip b (Suc p) else Inr p)"
  by pat_completeness auto
termination
  by (relation "measure (\<lambda>(b, p). length b - p)") (auto simp: rd_def split: if_splits)

declare numzcat_skip.simps [simp del]

text \<open>Steps 1 and 2 of \<open>numzcat\<close>: the string that \<open>p\<close> points to when \<open>strzcat\<close> is
  called. The local array \<open>b[12]\<close> starts with indeterminate bytes, here zero bytes;
  \<open>fitoa(n, 11, b)\<close> writes all twelve before any is read.\<close>

definition numzcat_unpadded :: "32 word \<Rightarrow> fault + char list" where
  "numzcat_unpadded n =
     (case fitoa n 11 (replicate 12 NUL) of
        Inl e \<Rightarrow> Inl e
      | Inr b \<Rightarrow>
          (case numzcat_skip b 0 of
             Inl e \<Rightarrow> Inl e
           | Inr p \<Rightarrow> Inr (drop p b)))"

definition numzcat :: "char list \<Rightarrow> 32 word \<Rightarrow> nat \<Rightarrow> fault + char list" where
  "numzcat d n dsize =
     (case numzcat_unpadded n of
        Inl e \<Rightarrow> Inl e
      | Inr p \<Rightarrow> strzcat d p dsize)"

subsection \<open>\<open>decatoi\<close>\<close>

text \<open>The result is the return code and the content of \<open>*value\<close> on return. The local
  array \<open>str2conv[21]\<close> starts with indeterminate bytes, here zero bytes; \<open>strtoll\<close> reads
  it up to the first zero byte only, which is at offset \<open>length\<close> at the latest.\<close>

definition decatoi :: "char list \<Rightarrow> nat \<Rightarrow> 64 word \<Rightarrow> fault + (int \<times> 64 word)" where
  "decatoi string length' value =
     (if length' > 20 then Inr (0, value)
      else
        (case strncpy (replicate 21 NUL) string (size_cast (int_cast length')) of
           Inl e \<Rightarrow> Inl e
         | Inr str2conv0 \<Rightarrow>
             (case wr str2conv0 length' NUL of
                Inl e \<Rightarrow> Inl e
              | Inr str2conv \<Rightarrow>
                  (case strtoll str2conv 0 of
                     Inl e \<Rightarrow> Inl e
                   | Inr (result, eptr, errno) \<Rightarrow>
                       if errno = EINVAL \<or> errno = ERANGE then Inr (0, value)
                       else if int_cast eptr \<noteq> int_cast length' then Inr (0, value)
                       else
                         (case rd str2conv eptr of
                            Inl e \<Rightarrow> Inl e
                          | Inr c \<Rightarrow>
                              if c \<noteq> NUL then Inr (0, value)
                              else Inr (1, result))))))"

subsection \<open>\<open>hexatoi\<close>\<close>

text \<open>The \<open>for\<close> loop with its \<open>switch\<close>, and the code after the loop. \<open>value\<close> is the
  content of \<open>*value\<close>; the result is the return code and the content of \<open>*value\<close> on
  return.\<close>

function hexatoi_loop ::
  "char list \<Rightarrow> nat \<Rightarrow> nat \<Rightarrow> 64 word \<Rightarrow> int \<Rightarrow> int \<Rightarrow> fault + (int \<times> 64 word)" where
  "hexatoi_loop string length' i value retcode sign =
     (if i < length' then
        (case rd string i of
           Inl e \<Rightarrow> Inl e
         | Inr c \<Rightarrow>
             if c \<in> set ''0123456789'' then
               hexatoi_loop string length' (Suc i)
                 (push_bit 4 value OR word_of_int (of_char c - of_char (CHR ''0'')))
                 retcode sign
             else if c \<in> set ''ABCDEF'' then
               hexatoi_loop string length' (Suc i)
                 (push_bit 4 value OR word_of_int (of_char c + 10 - of_char (CHR ''A'')))
                 retcode sign
             else if c \<in> set ''abcdef'' then
               hexatoi_loop string length' (Suc i)
                 (push_bit 4 value OR word_of_int (of_char c + 10 - of_char (CHR ''a'')))
                 retcode sign
             else if c = CHR '' '' then
               hexatoi_loop string length' (Suc i) value (retcode OR 4) sign
             else if c = CHR ''-'' then
               hexatoi_loop string length' (Suc i) value (retcode OR 4) (- 1)
             else if c = CHR ''+'' then
               hexatoi_loop string length' (Suc i) value (retcode OR 4) 1
             else Inr (1, value))
      else Inr (retcode, if sign = - 1 then - value else value))"
  by pat_completeness auto
termination
  by (relation "measure (\<lambda>(string, length', i, value, retcode, sign). length' - i)") auto

declare hexatoi_loop.simps [simp del]

definition hexatoi :: "char list \<Rightarrow> nat \<Rightarrow> 64 word \<Rightarrow> fault + (int \<times> 64 word)" where
  "hexatoi string length' value = hexatoi_loop string length' 0 0 0 0"

subsection \<open>\<open>replace_char_inplace\<close> and \<open>replace_char_safe_copy\<close>\<close>

function replace_char_loop ::
  "char list \<Rightarrow> char \<Rightarrow> char \<Rightarrow> int \<Rightarrow> nat \<Rightarrow> nat \<Rightarrow> nat \<Rightarrow> fault + char list" where
  "replace_char_loop str ch newch skipends len last_index i =
     (if i < len then
        (case rd str i of
           Inl e \<Rightarrow> Inl e
         | Inr c \<Rightarrow>
             if c = ch \<and> \<not> (skipends \<noteq> 0 \<and> (i = 0 \<or> i = last_index)) then
               (case wr str i newch of
                  Inl e \<Rightarrow> Inl e
                | Inr str' \<Rightarrow> replace_char_loop str' ch newch skipends len last_index (Suc i))
             else replace_char_loop str ch newch skipends len last_index (Suc i))
      else Inr str)"
  by pat_completeness auto
termination
  by (relation "measure (\<lambda>(str, ch, newch, skipends, len, last_index, i). len - i)") auto

declare replace_char_loop.simps [simp del]

definition replace_char_inplace ::
  "char list option \<Rightarrow> char \<Rightarrow> char \<Rightarrow> int \<Rightarrow> fault + char list option" where
  "replace_char_inplace str ch newch skipends =
     (case str of
        None \<Rightarrow> Inr None
      | Some m \<Rightarrow>
          (case strlen m of
             Inl e \<Rightarrow> Inl e
           | Inr len \<Rightarrow>
               if len = 0 then Inr (Some m)
               else map_sum id Some (replace_char_loop m ch newch skipends len (len - 1) 0)))"

text \<open>The result is the content of the object \<open>dest\<close> points to on return (\<open>None\<close> when
  \<open>dest\<close> is \<open>NULL\<close>). In the first branch \<open>dest[0] = '\0'\<close> is guarded by
  \<open>dest_size > 0\<close> alone.\<close>

definition replace_char_safe_copy ::
  "char list option \<Rightarrow> char list option \<Rightarrow> nat \<Rightarrow> char \<Rightarrow> char \<Rightarrow> int
     \<Rightarrow> fault + char list option" where
  "replace_char_safe_copy dest src dest_size ch newch skipends =
     (if dest = None \<or> src = None \<or> dest_size = 0 then
        (if dest_size > 0 then
           (case dest of
              None \<Rightarrow> Inl NullDeref
            | Some d \<Rightarrow> map_sum id Some (wr d 0 NUL))
         else Inr dest)
      else
        (case strzcpy (the dest) (the src) dest_size of
           Inl e \<Rightarrow> Inl e
         | Inr d \<Rightarrow> replace_char_inplace (Some d) ch newch skipends))"

subsection \<open>\<open>substring_safe_copy\<close>\<close>

definition substring_safe_copy ::
  "char list option \<Rightarrow> char list option \<Rightarrow> nat \<Rightarrow> nat \<Rightarrow> nat \<Rightarrow> fault + char list option" where
  "substring_safe_copy dest src dest_size position length' =
     (if dest = None \<or> src = None \<or> dest_size = 0 then
        (if dest \<noteq> None \<and> dest_size > 0
         then map_sum id Some (wr (the dest) 0 NUL)
         else Inr dest)
      else
        (case strlen (the src) of
           Inl e \<Rightarrow> Inl e
         | Inr src_len \<Rightarrow>
             if position \<ge> src_len then map_sum id Some (wr (the dest) 0 NUL)
             else
               let chars_available = src_len - position;
                   copy_len = (if length' < chars_available then length' else chars_available);
                   max_dest_copy = dest_size - 1;
                   copy_len = (if copy_len > max_dest_copy then max_dest_copy else copy_len)
               in
                 (case strncpy (the dest) (drop position (the src)) copy_len of
                    Inl e \<Rightarrow> Inl e
                  | Inr d \<Rightarrow> map_sum id Some (wr d copy_len NUL))))"

subsection \<open>\<open>safe_gets\<close>\<close>

text \<open>The loop \<open>while ((ch = fgetc(stream)) != '\n' && ch != EOF);\<close>.\<close>

function safe_gets_drain :: "char list \<Rightarrow> char list" where
  "safe_gets_drain stream =
     (case fgetc stream of
        (ch, stream') \<Rightarrow>
          if ch \<noteq> of_char (CHR 0x0A) \<and> ch \<noteq> EOF then safe_gets_drain stream' else stream')"
  by pat_completeness auto
termination
  apply (relation "measure length")
   apply simp
  subgoal for stream ch stream'
    by (cases stream) (auto simp: EOF_def)
  done

declare safe_gets_drain.simps [simp del]

text \<open>The result is: whether the return value is \<open>buf\<close> (not \<open>NULL\<close>), the content of the
  buffer and the stream on return.\<close>

definition safe_gets ::
  "char list option \<Rightarrow> nat \<Rightarrow> char list option
     \<Rightarrow> fault + (bool \<times> char list option \<times> char list option)" where
  "safe_gets buf buf_size stream =
     (if buf = None \<or> buf_size = 0 \<or> stream = None then Inr (False, buf, stream)
      else
        (case fgets (the buf) (int_cast buf_size) (the stream) of
           Inl e \<Rightarrow> Inl e
         | Inr (ok, buf1, stream1) \<Rightarrow>
             if \<not> ok then Inr (False, Some buf1, Some stream1)
             else
               (case strcspn buf1 [CHR 0x0D, CHR 0x0A] of
                  Inl e \<Rightarrow> Inl e
                | Inr len \<Rightarrow>
                    (case wr buf1 len NUL of
                       Inl e \<Rightarrow> Inl e
                     | Inr buf2 \<Rightarrow>
                         if len = buf_size - 1 then
                           (case rd buf2 len of
                              Inl e \<Rightarrow> Inl e
                            | Inr c \<Rightarrow>
                                if c \<noteq> NUL
                                then Inr (True, Some buf2, Some (safe_gets_drain stream1))
                                else Inr (True, Some buf2, Some stream1))
                         else Inr (True, Some buf2, Some stream1)))))"

section \<open>The words of the specification\<close>

subsection \<open>Hexadecimal text\<close>

text \<open>The character classes of \<open>parse_hex\<close>, the value of a hexadecimal digit (a table),
  the accumulation \<open>v \<leftarrow> (v << 4) | digit\<close> over the hexadecimal digits of a slice from
  left to right, and whether the last sign byte of a slice is \<open>-\<close>.\<close>

definition hex_digit :: "char \<Rightarrow> bool" where
  "hex_digit c \<longleftrightarrow> c \<in> set ''0123456789ABCDEFabcdef''"

definition hex_blank :: "char \<Rightarrow> bool" where
  "hex_blank c \<longleftrightarrow> c \<in> set '' +-''"

definition hex_value :: "char \<Rightarrow> nat" where
  "hex_value c =
     (case map_of (zip ''0123456789abcdef'' [0, 1, 2, 3, 4, 5, 6, 7, 8, 9, 10, 11, 12, 13, 14, 15]
                    @ zip ''ABCDEF'' [10, 11, 12, 13, 14, 15]) c of
        Some v \<Rightarrow> v
      | None \<Rightarrow> 0)"

definition hex_step :: "64 word \<Rightarrow> char \<Rightarrow> 64 word" where
  "hex_step v c = push_bit 4 v OR of_nat (hex_value c)"

definition hex_accum :: "char list \<Rightarrow> 64 word" where
  "hex_accum xs = foldl hex_step 0 (filter hex_digit xs)"

definition last_sign_minus :: "char list \<Rightarrow> bool" where
  "last_sign_minus xs =
     (let signs = filter (\<lambda>c. c = CHR ''-'' \<or> c = CHR ''+'') xs
      in signs \<noteq> [] \<and> last signs = CHR ''-'')"

text \<open>What one sign or space byte does to \<open>sign\<close> and to \<open>retcode\<close> in \<open>hexatoi\<close>.\<close>

definition sign_step :: "int \<Rightarrow> char \<Rightarrow> int" where
  "sign_step sg c = (if c = CHR ''-'' then - 1 else if c = CHR ''+'' then 1 else sg)"

definition retcode_step :: "int \<Rightarrow> char \<Rightarrow> int" where
  "retcode_step rc c = (if hex_blank c then rc OR 4 else rc)"

subsection \<open>Decimal text\<close>

text \<open>The decimal representation of a natural number: no sign, no leading zero, \<open>0\<close> for
  zero.\<close>

fun decimal :: "nat \<Rightarrow> char list" where
  "decimal n =
     (if n < 10 then [''0123456789'' ! n]
      else decimal (n div 10) @ [''0123456789'' ! (n mod 10)])"

declare decimal.simps [simp del]

text \<open>What one more digit does to the value of a digit string read from left to right.\<close>

definition strtoll_step :: "int \<Rightarrow> char \<Rightarrow> int" where
  "strtoll_step a d = 10 * a + (of_char d - of_char (CHR ''0''))"

section \<open>Properties\<close>

subsection \<open>Memory accesses\<close>

lemma rd_Inr [simp]: "i < length m \<Longrightarrow> rd m i = Inr (m ! i)"
  by (simp add: rd_def)

lemma rd_Inl [simp]: "length m \<le> i \<Longrightarrow> rd m i = Inl OutOfBounds"
  by (simp add: rd_def)

lemma wr_Inr [simp]: "i < length m \<Longrightarrow> wr m i c = Inr (m[i := c])"
  by (simp add: wr_def)

lemma wr_Inl [simp]: "length m \<le> i \<Longrightarrow> wr m i c = Inl OutOfBounds"
  by (simp add: wr_def)

lemma rd_Cons_Suc [simp]: "rd (c # s) (Suc i) = rd s i"
  by (simp add: rd_def)

lemma rd_Cons_0 [simp]: "rd (c # s) 0 = Inr c"
  by (simp add: rd_def)

lemma rd_after_wr: "wr m i c = Inr m' \<Longrightarrow> rd m' i = Inr c"
  by (auto simp: wr_def rd_def split: if_splits)

lemma size_dec_pos [simp]: "0 < n \<Longrightarrow> size_dec n = n - 1"
  by (simp add: size_dec_def)

lemma nth_not_NUL: "NUL \<notin> set str \<Longrightarrow> i < length str \<Longrightarrow> str ! i \<noteq> NUL"
  by (metis nth_mem)

subsection \<open>\<open>strzcpy\<close>\<close>

text \<open>The copy loop started at offsets \<open>pd\<close> and \<open>ps\<close> with \<open>dsize\<close> at least 1 copies
  \<open>min (strlen s - ps) (dsize - 1)\<close> bytes and leaves every other byte of \<open>d\<close> alone.\<close>

lemma strzcpy_loop_run:
  "NUL \<notin> set str \<Longrightarrow> ps \<le> length str \<Longrightarrow> 0 < dsize \<Longrightarrow>
   pd + min (length str - ps) (dsize - 1) \<le> length d \<Longrightarrow>
   strzcpy_loop d pd (str @ NUL # rest) ps dsize =
     Inr (take pd d @ take (dsize - 1) (drop ps str)
            @ drop (pd + min (length str - ps) (dsize - 1)) d,
          pd + min (length str - ps) (dsize - 1))"
proof (induction d pd "str @ NUL # rest" ps dsize rule: strzcpy_loop.induct)
  case (1 d pd ps dsize)
  show ?case
  proof (cases "ps = length str")
    case True
    then show ?thesis
      by (subst strzcpy_loop.simps) simp
  next
    case False
    with "1.prems" have lt: "ps < length str" by simp
    with "1.prems"(1) have nz: "str ! ps \<noteq> NUL" by (simp add: nth_not_NUL)
    have rdc: "rd (str @ NUL # rest) ps = Inr (str ! ps)"
      using lt by (simp add: nth_append)
    show ?thesis
    proof (cases "size_dec dsize = 0")
      case True
      with "1.prems" have "dsize - 1 = 0" by simp
      then show ?thesis using True nz rdc
        by (subst strzcpy_loop.simps) simp
    next
      case False
      with "1.prems" have d1: "dsize - 1 \<noteq> 0" by simp
      with "1.prems" lt have pdlt: "pd < length d" by simp
      have wrc: "wr d pd (str ! ps) = Inr (d[pd := str ! ps])"
        using pdlt by simp
      have IH: "strzcpy_loop (d[pd := str ! ps]) (Suc pd) (str @ NUL # rest) (Suc ps) (size_dec dsize) =
         Inr (take (Suc pd) (d[pd := str ! ps]) @ take (dsize - 1 - 1) (drop (Suc ps) str)
            @ drop (Suc pd + min (length str - Suc ps) (dsize - 1 - 1)) (d[pd := str ! ps]),
          Suc pd + min (length str - Suc ps) (dsize - 1 - 1))"
        using "1.hyps"[OF rdc nz False wrc] "1.prems" lt d1 by simp
      have k: "Suc pd + min (length str - Suc ps) (dsize - 1 - 1)
                 = pd + min (length str - ps) (dsize - 1)"
        using lt d1 by simp
      have t: "take (dsize - 1) (drop ps str)
                 = str ! ps # take (dsize - 1 - 1) (drop (Suc ps) str)"
        using lt d1 by (cases "dsize - 1") (simp_all add: Cons_nth_drop_Suc[symmetric])
      have u: "take (Suc pd) (d[pd := str ! ps]) = take pd d @ [str ! ps]"
        using pdlt by (simp add: take_Suc_conv_app_nth)
      have v: "drop (pd + min (length str - ps) (dsize - 1)) (d[pd := str ! ps])
                 = drop (pd + min (length str - ps) (dsize - 1)) d"
        using lt d1 by simp
      show ?thesis
        apply (subst strzcpy_loop.simps)
        apply (simp only: rdc wrc sum.case nz False if_False IH)
        apply (simp only: k t u v)
        apply simp
        done
    qed
  qed
qed

lemma strzcpy_run:
  assumes "NUL \<notin> set str" and "cap \<le> length d"
  shows "strzcpy d (str @ NUL # rest) cap =
           Inr (if cap = 0 then d
                else take (cap - 1) str @ NUL # drop (Suc (min (length str) (cap - 1))) d)"
proof (cases "cap = 0")
  case True
  then show ?thesis by (simp add: strzcpy_def)
next
  case False
  let ?k = "min (length str) (cap - 1)"
  from False assms have k: "?k < length d" by simp
  have loop: "strzcpy_loop d 0 (str @ NUL # rest) 0 cap =
          Inr (take (cap - 1) str @ drop ?k d, ?k)"
    using strzcpy_loop_run[of str 0 cap 0 d rest] assms False k by simp
  have len: "length (take (cap - 1) str) = ?k" by simp
  have "(take (cap - 1) str @ drop ?k d)[?k := NUL]
          = take (cap - 1) str @ NUL # drop (Suc ?k) d"
    using k by (simp add: list_update_append upd_conv_take_nth_drop min_def)
  then show ?thesis
    using False loop k by (simp add: strzcpy_def)
qed

text \<open>
  C8. Let \<open>s\<close> hold the string \<open>str\<close> (no zero byte in \<open>str\<close>, then the terminator) and
  let \<open>d\<close> be an object of at least \<open>cap\<close> bytes. Then \<open>strzcpy(d, s, cap)\<close> does not
  fault. With \<open>cap = 0\<close> the destination is untouched. With \<open>cap \<ge> 1\<close> the destination
  holds the longest prefix of \<open>str\<close> of length at most \<open>cap - 1\<close>, then a zero byte, then
  its former bytes. In both cases the bytes at offsets \<open>cap\<close> and beyond are the former
  ones; as the object may be of exactly \<open>cap\<close> bytes and a write outside it is a fault,
  no write happens at or beyond offset \<open>cap\<close>.
\<close>

theorem strzcpy_bounded_prefix:
  assumes "NUL \<notin> set str" and "cap \<le> length d"
  shows "\<exists>d'. strzcpy d (str @ NUL # rest) cap = Inr d'
           \<and> d' = (if cap = 0 then d
                     else take (cap - 1) str @ NUL
                            # drop (Suc (min (length str) (cap - 1))) d)
           \<and> length d' = length d
           \<and> drop cap d' = drop cap d"
proof (cases "cap = 0")
  case True
  with assms show ?thesis by (simp add: strzcpy_run)
next
  case False
  let ?k = "min (length str) (cap - 1)"
  let ?d' = "take (cap - 1) str @ NUL # drop (Suc ?k) d"
  have run: "strzcpy d (str @ NUL # rest) cap = Inr ?d'"
    using strzcpy_run[OF assms, of rest] False by simp
  have k: "Suc ?k \<le> cap" "Suc ?k \<le> length d"
    using False assms by simp_all
  have len: "length ?d' = length d"
    using k by simp
  define xs where "xs = take (cap - 1) str @ [NUL]"
  have lx: "length xs = Suc ?k"
    by (simp add: xs_def)
  have split: "?d' = xs @ drop (Suc ?k) d"
    by (simp add: xs_def)
  have "drop cap (xs @ drop (Suc ?k) d) = drop (cap - Suc ?k) (drop (Suc ?k) d)"
    using lx k(1) by simp
  also have "\<dots> = drop cap d"
    using k(1) by simp
  finally have "drop cap ?d' = drop cap d"
    by (simp only: split)
  then show ?thesis
    using run len False by simp
qed

theorem strzcpy_bounded_prefix_witness:
  "NUL \<notin> set ''ABCDE'' \<and> 3 \<le> length ''xxxxxx''
   \<and> strzcpy ''xxxxxx'' (''ABCDE'' @ [NUL]) 3 = Inr (''AB'' @ NUL # ''xxx'')"
  using strzcpy_bounded_prefix[of "''ABCDE''" 3 "''xxxxxx''" "[]"] by simp

subsection \<open>\<open>strcmpii\<close>\<close>

lemma of_char_int_bounds: "0 \<le> (of_char c :: int)" "(of_char c :: int) < 256"
proof -
  have "(of_char c :: int) = int (of_char c)"
    by (simp add: of_nat_of_char)
  then show "0 \<le> (of_char c :: int)" "(of_char c :: int) < 256"
    using nat_of_char_less_256[of c] by simp_all
qed

lemma of_char_int_zero: "(of_char c :: int) = 0 \<longleftrightarrow> c = NUL"
proof -
  have "(of_char c :: int) = of_char NUL \<longleftrightarrow> c = NUL"
    by (rule of_char_eq_iff)
  then show ?thesis by simp
qed

lemma tolower_zero: "tolower (int_of_char sg c) = 0 \<longleftrightarrow> c = NUL"
  using of_char_int_bounds[of c] of_char_int_zero[of c]
  by (auto simp: tolower_def int_of_char_def)

lemma strcmpii_loop_Cons:
  "strcmpii_loop sg (c1 # s1) (c2 # s2) (Suc i) = strcmpii_loop sg s1 s2 i"
proof (induction sg s1 s2 i rule: strcmpii_loop.induct)
  case (1 sg s1 s2 i)
  show ?case
    apply (subst strcmpii_loop.simps)
    apply (subst (2) strcmpii_loop.simps)
    apply (auto split: sum.splits simp: "1")
    done
qed

lemma strcmpii_loop_antisym:
  "NUL \<notin> set a \<Longrightarrow> NUL \<notin> set b \<Longrightarrow>
   \<exists>x. strcmpii_loop sg (a @ NUL # r1) (b @ NUL # r2) 0 = Inr x
      \<and> strcmpii_loop sg (b @ NUL # r2) (a @ NUL # r1) 0 = Inr (- x)"
proof (induction a arbitrary: b)
  case Nil
  show ?case
  proof (cases b)
    case Nil
    then show ?thesis
      by (subst strcmpii_loop.simps, subst (2) strcmpii_loop.simps) simp
  next
    case (Cons c2 b')
    with Nil.prems have "c2 \<noteq> NUL" by auto
    then have ne: "tolower (int_of_char sg NUL) \<noteq> tolower (int_of_char sg c2)"
      using tolower_zero[of sg c2] tolower_zero[of sg NUL] by simp
    show ?thesis
      unfolding Cons using ne
      by (subst strcmpii_loop.simps, subst (2) strcmpii_loop.simps) (simp add: eq_commute)
  qed
next
  case (Cons c1 a')
  then have c1: "c1 \<noteq> NUL" and a': "NUL \<notin> set a'" by auto
  show ?case
  proof (cases b)
    case Nil
    have ne: "tolower (int_of_char sg c1) \<noteq> tolower (int_of_char sg NUL)"
      using c1 tolower_zero[of sg c1] tolower_zero[of sg NUL] by simp
    show ?thesis
      unfolding Nil using ne
      by (subst strcmpii_loop.simps, subst (2) strcmpii_loop.simps) (simp add: eq_commute)
  next
    case (Cons c2 b')
    with Cons.prems have c2: "c2 \<noteq> NUL" and b': "NUL \<notin> set b'" by auto
    show ?thesis
    proof (cases "tolower (int_of_char sg c1) = tolower (int_of_char sg c2)")
      case True
      from Cons.IH[OF a' b'] obtain x where
        x: "strcmpii_loop sg (a' @ NUL # r1) (b' @ NUL # r2) 0 = Inr x"
           "strcmpii_loop sg (b' @ NUL # r2) (a' @ NUL # r1) 0 = Inr (- x)"
        by blast
      show ?thesis
        unfolding Cons using True c1 c2 x
        by (subst strcmpii_loop.simps, subst (2) strcmpii_loop.simps)
           (simp add: strcmpii_loop_Cons)
    next
      case False
      then show ?thesis
        unfolding Cons
        by (subst strcmpii_loop.simps, subst (2) strcmpii_loop.simps) (simp add: eq_commute)
    qed
  qed
qed

text \<open>Bytes above \<open>0x7F\<close> with a signed plain \<open>char\<close>: \<open>0xC8\<close> is passed as \<open>-56\<close> and
  compared as 200, \<open>0xFF\<close> is passed as \<open>-1\<close> and compared as \<open>-1\<close>.\<close>

lemma strcmpii_high_bytes:
  "strcmpii True [CHR 0xC8, NUL] (''a'' @ [NUL]) = Inr 103"
  "strcmpii True (''a'' @ [NUL]) [CHR 0xC8, NUL] = Inr (- 103)"
  "strcmpii True [CHR 0xFF, NUL] (''a'' @ [NUL]) = Inr (- 98)"
  "strcmpii True (''a'' @ [NUL]) [CHR 0xFF, NUL] = Inr 98"
  "strcmpii False [CHR 0xFF, NUL] (''a'' @ [NUL]) = Inr 158"
  by code_simp+

text \<open>
  C9. For two zero-terminated strings \<open>a\<close> and \<open>b\<close>, whatever follows their terminators and
  whether plain \<open>char\<close> is signed or not, \<open>strcmpii(a, b)\<close> and \<open>strcmpii(b, a)\<close> both
  return, and the sign of the first result is the negation of the sign of the second.
\<close>

theorem strcmpii_antisymmetric:
  assumes "NUL \<notin> set a" and "NUL \<notin> set b"
  shows "\<exists>x y. strcmpii char_signed (a @ NUL # r1) (b @ NUL # r2) = Inr x
           \<and> strcmpii char_signed (b @ NUL # r2) (a @ NUL # r1) = Inr y
           \<and> sgn x = - sgn y"
proof -
  from strcmpii_loop_antisym[OF assms, of char_signed r1 r2] obtain x where
    "strcmpii_loop char_signed (a @ NUL # r1) (b @ NUL # r2) 0 = Inr x"
    "strcmpii_loop char_signed (b @ NUL # r2) (a @ NUL # r1) 0 = Inr (- x)"
    by blast
  then show ?thesis
    by (simp add: strcmpii_def sgn_minus)
qed

theorem strcmpii_antisymmetric_witness:
  "NUL \<notin> set ''Hello'' \<and> NUL \<notin> set ''help''
   \<and> (\<exists>x y. strcmpii True (''Hello'' @ [NUL]) (''help'' @ [NUL]) = Inr x
           \<and> strcmpii True (''help'' @ [NUL]) (''Hello'' @ [NUL]) = Inr y
           \<and> sgn x = - sgn y)
   \<and> NUL \<notin> set [CHR 0xC8] \<and> NUL \<notin> set ''a''
   \<and> (\<exists>x y. strcmpii True [CHR 0xC8, NUL] (''a'' @ [NUL]) = Inr x
           \<and> strcmpii True (''a'' @ [NUL]) [CHR 0xC8, NUL] = Inr y
           \<and> sgn x = - sgn y)"
  using strcmpii_antisymmetric[of "''Hello''" "''help''" True "[]" "[]"]
    strcmpii_antisymmetric[of "[CHR 0xC8]" "''a''" True "[]" "[]"]
  by simp

subsection \<open>\<open>replace_char_safe_copy\<close> with a null destination\<close>

text \<open>\<open>substring_safe_copy\<close> tests \<open>dest != NULL\<close> before it writes \<open>dest[0]\<close>: with a null
  destination it returns and nothing is accessed.\<close>

lemma substring_safe_copy_null_dest:
  "substring_safe_copy None src dest_size position length' = Inr None"
  by (simp add: substring_safe_copy_def)

text \<open>
  C4 says that \<open>replace_char_safe_copy(NULL, src, dest_size, ch, newch, skipends)\<close> with
  \<open>dest_size \<ge> 1\<close> returns without a write and without dereferencing the null
  destination. The code does otherwise: whatever \<open>src\<close>, \<open>ch\<close>, \<open>newch\<close> and \<open>skipends\<close>
  are, the call writes \<open>dest[0]\<close> through the null pointer.
\<close>

theorem replace_char_safe_copy_null_dest:
  "0 < dest_size \<Longrightarrow>
   replace_char_safe_copy None src dest_size ch newch skipends = Inl NullDeref"
  by (simp add: replace_char_safe_copy_def)

theorem replace_char_safe_copy_null_dest_witness:
  "(0::nat) < 1 \<and>
   replace_char_safe_copy None (Some (''a'' @ [NUL])) 1 (CHR ''a'') (CHR ''b'') 0
     = Inl NullDeref"
  using replace_char_safe_copy_null_dest[of 1 "Some (''a'' @ [NUL])" "CHR ''a''" "CHR ''b''" 0]
  by simp

subsection \<open>\<open>safe_gets\<close> on a line longer than the buffer\<close>

text \<open>Whatever the arguments, a call of \<open>safe_gets\<close> that returns \<open>buf\<close> leaves the stream
  where \<open>fgets\<close> left it: the drain loop is never entered.\<close>

lemma safe_gets_never_drains:
  assumes "safe_gets buf buf_size stream = Inr (True, buf', stream')"
  shows "\<exists>buf1. fgets (the buf) (int_cast buf_size) (the stream) = Inr (True, buf1, the stream')"
  using assms unfolding safe_gets_def
  by (auto split: if_splits sum.splits prod.splits dest: rd_after_wr)

text \<open>
  C1 says that a call of \<open>safe_gets\<close> that fills the buffer without meeting a line
  terminator consumes the rest of the physical line. The code does otherwise: with a
  buffer of 4 bytes and the stream \<open>abcdef\<newline>xyz\<newline>\<close>, the call returns \<open>abc\<close> and
  leaves \<open>def\<newline>xyz\<newline>\<close> unread, so the next call returns \<open>def\<close>; the drain loop would
  have left \<open>xyz\<newline>\<close>. (\<open>buf[len]\<close> is tested just after it was set to zero.)
\<close>

theorem safe_gets_leaves_line_tail:
  "safe_gets (Some [b0, b1, b2, b3]) 4 (Some (''abcdef'' @ [CHR 0x0A] @ ''xyz'' @ [CHR 0x0A]))
     = Inr (True, Some (''abc'' @ [NUL]), Some (''def'' @ [CHR 0x0A] @ ''xyz'' @ [CHR 0x0A]))
   \<and> safe_gets (Some (''abc'' @ [NUL])) 4 (Some (''def'' @ [CHR 0x0A] @ ''xyz'' @ [CHR 0x0A]))
     = Inr (True, Some (''def'' @ [NUL]), Some ([CHR 0x0A] @ ''xyz'' @ [CHR 0x0A]))
   \<and> safe_gets_drain (''def'' @ [CHR 0x0A] @ ''xyz'' @ [CHR 0x0A]) = ''xyz'' @ [CHR 0x0A]"
  by (simp add: safe_gets_def fgets_def int_cast_def strcspn_def strcspn_from.simps
        safe_gets_drain.simps EOF_def)

subsection \<open>\<open>substring_safe_copy\<close> on scenario S3\<close>

text \<open>The claim C2 as it is stated, that the destination holds the string \<open>345\<close>, is
  false.\<close>

theorem substring_safe_copy_S3_counterexample:
  "map_sum id (map_option c_string)
     (substring_safe_copy (Some ''?????'') (Some (''0123456789'' @ [NUL])) 5 3 4)
   \<noteq> Inr (Some ''345'')"
  by (simp add: substring_safe_copy_def strlen_def strlen_from.simps strncpy_def
        strncpy_loop.simps)

text \<open>
  C2, amended. \<open>substring_safe_copy(dest, "0123456789", 5, 3, 4)\<close> with \<open>dest\<close> an object
  of 5 bytes returns with \<open>dest\<close> holding the four bytes \<open>3456\<close> followed by a zero byte:
  \<open>min(4, 10 - 3, 5 - 1) = 4\<close> bytes are copied.
\<close>

theorem substring_safe_copy_S3:
  "substring_safe_copy (Some [b0, b1, b2, b3, b4]) (Some (''0123456789'' @ NUL # rest)) 5 3 4
     = Inr (Some (''3456'' @ [NUL]))"
  by (simp add: substring_safe_copy_def strlen_def strlen_from.simps strncpy_def
        strncpy_loop.simps)

subsection \<open>\<open>decatoi\<close> on leading white space\<close>

text \<open>
  C3 says that \<open>decatoi\<close> returns 0 and leaves \<open>*value\<close> as it was on every slice of at
  most 20 bytes that holds a white-space byte, such as \<open>" 123"\<close> with length 4. The code
  does otherwise on that input: \<open>strtoll\<close> skips the leading space, all four bytes are
  consumed, and \<open>decatoi\<close> returns 1 with \<open>*value = 123\<close>.
\<close>

theorem decatoi_leading_space:
  "decatoi '' 123'' 4 value = Inr (1, 123)"
  by code_simp

subsection \<open>\<open>hexatoi\<close>\<close>

lemma hex_value_simps:
  "hex_value (CHR ''0'') = 0"
  "hex_value (CHR ''1'') = 1"
  "hex_value (CHR ''2'') = 2"
  "hex_value (CHR ''3'') = 3"
  "hex_value (CHR ''4'') = 4"
  "hex_value (CHR ''5'') = 5"
  "hex_value (CHR ''6'') = 6"
  "hex_value (CHR ''7'') = 7"
  "hex_value (CHR ''8'') = 8"
  "hex_value (CHR ''9'') = 9"
  "hex_value (CHR ''a'') = 10"
  "hex_value (CHR ''b'') = 11"
  "hex_value (CHR ''c'') = 12"
  "hex_value (CHR ''d'') = 13"
  "hex_value (CHR ''e'') = 14"
  "hex_value (CHR ''f'') = 15"
  "hex_value (CHR ''A'') = 10"
  "hex_value (CHR ''B'') = 11"
  "hex_value (CHR ''C'') = 12"
  "hex_value (CHR ''D'') = 13"
  "hex_value (CHR ''E'') = 14"
  "hex_value (CHR ''F'') = 15"
  by (simp_all add: hex_value_def)

lemma hex_value_dec:
  "c \<in> set ''0123456789'' \<Longrightarrow>
   (word_of_int (of_char c - of_char (CHR ''0'')) :: 64 word) = of_nat (hex_value c)"
  by (auto simp: hex_value_simps)

lemma hex_value_upper:
  "c \<in> set ''ABCDEF'' \<Longrightarrow>
   (word_of_int (of_char c + 10 - of_char (CHR ''A'')) :: 64 word) = of_nat (hex_value c)"
  by (auto simp: hex_value_simps)

lemma hex_value_lower:
  "c \<in> set ''abcdef'' \<Longrightarrow>
   (word_of_int (of_char c + 10 - of_char (CHR ''a'')) :: 64 word) = of_nat (hex_value c)"
  by (auto simp: hex_value_simps)

lemma hex_step_dec:
  "c \<in> set ''0123456789'' \<Longrightarrow>
   push_bit 4 v OR word_of_int (of_char c - of_char (CHR ''0'')) = hex_step v c"
  by (simp only: hex_step_def hex_value_dec)

lemma hex_step_upper:
  "c \<in> set ''ABCDEF'' \<Longrightarrow>
   push_bit 4 v OR word_of_int (of_char c + 10 - of_char (CHR ''A'')) = hex_step v c"
  by (simp only: hex_step_def hex_value_upper)

lemma hex_step_lower:
  "c \<in> set ''abcdef'' \<Longrightarrow>
   push_bit 4 v OR word_of_int (of_char c + 10 - of_char (CHR ''a'')) = hex_step v c"
  by (simp only: hex_step_def hex_value_lower)

lemma hex_digit_iff:
  "hex_digit c \<longleftrightarrow> c \<in> set ''0123456789'' \<or> c \<in> set ''ABCDEF'' \<or> c \<in> set ''abcdef''"
proof -
  have "''0123456789ABCDEFabcdef'' = ''0123456789'' @ ''ABCDEF'' @ ''abcdef''"
    by simp
  then show ?thesis
    unfolding hex_digit_def by (simp only: set_append Un_iff)
qed

lemma hex_blank_iff: "hex_blank c \<longleftrightarrow> c = CHR '' '' \<or> c = CHR ''+'' \<or> c = CHR ''-''"
  by (simp add: hex_blank_def)

lemma upper_not_dec: "c \<in> set ''ABCDEF'' \<Longrightarrow> c \<notin> set ''0123456789''"
  by auto

lemma lower_not_dec_upper:
  "c \<in> set ''abcdef'' \<Longrightarrow> c \<notin> set ''0123456789'' \<and> c \<notin> set ''ABCDEF''"
  by auto

lemma hex_digit_not_blank: "hex_digit c \<Longrightarrow> \<not> hex_blank c"
  unfolding hex_digit_def hex_blank_def by auto

lemma hex_blank_not_digit:
  "hex_blank c \<Longrightarrow> c \<notin> set ''0123456789'' \<and> c \<notin> set ''ABCDEF'' \<and> c \<notin> set ''abcdef''"
  unfolding hex_blank_def by auto

lemma hexatoi_loop_step:
  assumes "hex_digit c \<or> hex_blank c" and "length xs < len"
  shows "hexatoi_loop (xs @ c # rest) len (length xs) v rc sg =
         hexatoi_loop (xs @ c # rest) len (Suc (length xs))
           (if hex_digit c then hex_step v c else v) (retcode_step rc c) (sign_step sg c)"
proof (cases "hex_digit c")
  case True
  then have nb: "\<not> hex_blank c" by (rule hex_digit_not_blank)
  then have ns: "c \<noteq> CHR ''-''" "c \<noteq> CHR ''+''"
    by (auto simp: hex_blank_iff)
  have r: "rd (xs @ c # rest) (length xs) = Inr c"
    by (simp add: rd_def)
  from True consider "c \<in> set ''0123456789''" | "c \<in> set ''ABCDEF''" | "c \<in> set ''abcdef''"
    unfolding hex_digit_iff by blast
  then show ?thesis
  proof cases
    case 1
    show ?thesis
      apply (subst hexatoi_loop.simps)
      apply (simp only: assms(2) r sum.case 1 if_True hex_step_dec[OF 1] True
               retcode_step_def nb if_False sign_step_def ns)
      done
  next
    case 2
    note n = upper_not_dec[OF 2]
    show ?thesis
      apply (subst hexatoi_loop.simps)
      apply (simp only: assms(2) r sum.case 2 n if_True hex_step_upper[OF 2] True
               retcode_step_def nb if_False sign_step_def ns)
      done
  next
    case 3
    note n = lower_not_dec_upper[OF 3]
    show ?thesis
      apply (subst hexatoi_loop.simps)
      apply (simp only: assms(2) r sum.case 3 n if_True hex_step_lower[OF 3] True
               retcode_step_def nb if_False sign_step_def ns)
      done
  qed
next
  case False
  with assms(1) have b: "hex_blank c" by simp
  note n = hex_blank_not_digit[OF b]
  have r: "rd (xs @ c # rest) (length xs) = Inr c"
    by (simp add: rd_def)
  from b consider "c = CHR '' ''" | "c = CHR ''-''" | "c = CHR ''+''"
    unfolding hex_blank_iff by blast
  then show ?thesis
  proof cases
    case 1
    then have s: "sign_step sg c = sg" by (simp add: sign_step_def)
    show ?thesis
      apply (subst hexatoi_loop.simps)
      apply (simp only: assms(2) r sum.case n if_False False retcode_step_def b if_True s)
      apply (simp only: 1 if_True simp_thms)
      done
  next
    case 2
    then have s: "sign_step sg c = - 1" by (simp add: sign_step_def)
    have ne: "c \<noteq> CHR '' ''" using 2 by simp
    show ?thesis
      apply (subst hexatoi_loop.simps)
      apply (simp only: assms(2) r sum.case n if_False False retcode_step_def b if_True s ne)
      apply (simp only: 2 if_True simp_thms)
      done
  next
    case 3
    then have s: "sign_step sg c = 1" by (simp add: sign_step_def)
    have ne: "c \<noteq> CHR '' ''" "c \<noteq> CHR ''-''" using 3 by simp_all
    show ?thesis
      apply (subst hexatoi_loop.simps)
      apply (simp only: assms(2) r sum.case n if_False False retcode_step_def b if_True s ne)
      apply (simp only: 3 if_True simp_thms)
      done
  qed
qed

lemma hexatoi_loop_scan:
  "\<forall>c\<in>set ys. hex_digit c \<or> hex_blank c \<Longrightarrow> length xs + length ys \<le> len \<Longrightarrow>
   hexatoi_loop (xs @ ys @ rest) len (length xs) v rc sg =
   hexatoi_loop (xs @ ys @ rest) len (length xs + length ys)
     (foldl hex_step v (filter hex_digit ys)) (foldl retcode_step rc ys) (foldl sign_step sg ys)"
proof (induction ys arbitrary: xs v rc sg)
  case Nil
  show ?case by simp
next
  case (Cons c ys)
  have cls: "hex_digit c \<or> hex_blank c" and lt: "length xs < len"
    using Cons.prems by simp_all
  have IH: "hexatoi_loop ((xs @ [c]) @ ys @ rest) len (length (xs @ [c])) v' rc' sg' =
        hexatoi_loop ((xs @ [c]) @ ys @ rest) len (length (xs @ [c]) + length ys)
          (foldl hex_step v' (filter hex_digit ys)) (foldl retcode_step rc' ys)
          (foldl sign_step sg' ys)" for v' rc' sg'
    using Cons.prems by (intro Cons.IH) simp_all
  show ?case
    using hexatoi_loop_step[OF cls lt, of "ys @ rest" v rc sg] IH
    by simp
qed


lemma hexatoi_loop_end:
  "hexatoi_loop s len len v rc sg = Inr (rc, if sg = - 1 then - v else v)"
  by (subst hexatoi_loop.simps) simp

lemma hexatoi_loop_bad:
  assumes "\<not> (hex_digit bad \<or> hex_blank bad)" and "length xs < len"
  shows "hexatoi_loop (xs @ bad # rest) len (length xs) v rc sg = Inr (1, v)"
proof -
  have r: "rd (xs @ bad # rest) (length xs) = Inr bad"
    by (simp add: rd_def)
  have n: "bad \<notin> set ''0123456789''" "bad \<notin> set ''ABCDEF''" "bad \<notin> set ''abcdef''"
    "bad \<noteq> CHR '' ''" "bad \<noteq> CHR ''-''" "bad \<noteq> CHR ''+''"
    using assms(1) unfolding hex_digit_iff hex_blank_iff by blast+
  show ?thesis
    apply (subst hexatoi_loop.simps)
    apply (simp only: assms(2) r sum.case n if_True if_False)
    done
qed

lemma foldl_retcode_step:
  "foldl retcode_step rc xs = (if \<exists>c\<in>set xs. hex_blank c then rc OR 4 else rc)"
proof (induction xs arbitrary: rc)
  case Nil
  show ?case by simp
next
  case (Cons c xs)
  have "(rc OR 4) OR 4 = rc OR 4"
    by (simp add: or.assoc)
  then show ?case
    by (simp only: foldl_Cons Cons.IH) (simp add: retcode_step_def)
qed

lemma last_sign_minus_snoc:
  "last_sign_minus (xs @ [c]) =
     (if c = CHR ''-'' then True else if c = CHR ''+'' then False else last_sign_minus xs)"
  by (simp add: last_sign_minus_def Let_def)

lemma foldl_sign_step: "foldl sign_step 0 xs = - 1 \<longleftrightarrow> last_sign_minus xs"
proof (induction xs rule: rev_induct)
  case Nil
  show ?case by (simp add: last_sign_minus_def)
next
  case (snoc c xs)
  then show ?case
    by (simp add: last_sign_minus_snoc sign_step_def)
qed

lemma hexatoi_valid:
  assumes "\<forall>c\<in>set xs. hex_digit c \<or> hex_blank c"
  shows "hexatoi (xs @ rest) (length xs) v0 =
           Inr (if \<exists>c\<in>set xs. hex_blank c then 4 else 0,
                if last_sign_minus xs then - hex_accum xs else hex_accum xs)"
proof -
  have "hexatoi_loop ([] @ xs @ rest) (length xs) (length ([] :: char list)) 0 0 0 =
        hexatoi_loop ([] @ xs @ rest) (length xs) (length ([] :: char list) + length xs)
          (foldl hex_step 0 (filter hex_digit xs)) (foldl retcode_step 0 xs)
          (foldl sign_step 0 xs)"
    using assms by (intro hexatoi_loop_scan) simp_all
  then show ?thesis
    by (simp add: hexatoi_def hexatoi_loop_end foldl_retcode_step foldl_sign_step hex_accum_def)
qed

lemma hexatoi_invalid:
  assumes "\<forall>c\<in>set xs. hex_digit c \<or> hex_blank c"
    and "\<not> (hex_digit bad \<or> hex_blank bad)" and "length xs < len"
  shows "hexatoi (xs @ bad # rest) len v0 = Inr (1, hex_accum xs)"
proof -
  have "hexatoi_loop ([] @ xs @ bad # rest) len (length ([] :: char list)) 0 0 0 =
        hexatoi_loop ([] @ xs @ bad # rest) len (length ([] :: char list) + length xs)
          (foldl hex_step 0 (filter hex_digit xs)) (foldl retcode_step 0 xs)
          (foldl sign_step 0 xs)"
    using assms by (intro hexatoi_loop_scan) simp_all
  then show ?thesis
    using hexatoi_loop_bad[OF assms(2,3), of rest]
    by (simp add: hexatoi_def hex_accum_def)
qed

text \<open>
  C5. Let every byte of the slice \<open>xs\<close> be a hexadecimal digit, a space, \<open>+\<close> or \<open>-\<close>.
  Then \<open>hexatoi\<close> returns 0 if \<open>xs\<close> holds hexadecimal digits only and 4 otherwise,
  wherever the signs and spaces are; \<open>*value\<close> is the accumulation
  \<open>v \<leftarrow> (v << 4) | digit\<close> over the hexadecimal digits from left to right, negated if and
  only if the last sign byte is \<open>-\<close>. \<open>hexatoi("  -ff", 5, &x)\<close> returns 4 with
  \<open>x = -255\<close>. A byte \<open>bad\<close> outside these classes, after such a slice, makes \<open>hexatoi\<close>
  return 1 at once, whatever \<open>length\<close> is and whatever follows \<open>bad\<close> (nothing may follow:
  no byte after \<open>bad\<close> is read). Hence every slice
  that holds a byte outside these classes gives 1.
\<close>

theorem hexatoi_permissive:
  "((\<forall>c\<in>set xs. hex_digit c \<or> hex_blank c) \<longrightarrow>
      hexatoi (xs @ rest) (length xs) v0 =
        Inr (if \<forall>c\<in>set xs. hex_digit c then 0 else 4,
             if last_sign_minus xs then - hex_accum xs else hex_accum xs))
   \<and> hexatoi ''  -ff'' 5 v0 = Inr (4, - 255)
   \<and> ((\<forall>c\<in>set xs. hex_digit c \<or> hex_blank c)
        \<and> \<not> (hex_digit bad \<or> hex_blank bad) \<and> length xs < len \<longrightarrow>
          hexatoi (xs @ bad # rest') len v0 = Inr (1, hex_accum xs))
   \<and> ((\<exists>c\<in>set xs. \<not> (hex_digit c \<or> hex_blank c)) \<longrightarrow>
          map_sum id fst (hexatoi (xs @ rest) (length xs) v0) = Inr 1)"
proof (intro conjI impI)
  assume a: "\<forall>c\<in>set xs. hex_digit c \<or> hex_blank c"
  have "(\<forall>c\<in>set xs. hex_digit c) \<longleftrightarrow> \<not> (\<exists>c\<in>set xs. hex_blank c)"
    using a hex_digit_not_blank by blast
  then show "hexatoi (xs @ rest) (length xs) v0 =
       Inr (if \<forall>c\<in>set xs. hex_digit c then 0 else 4,
            if last_sign_minus xs then - hex_accum xs else hex_accum xs)"
    using hexatoi_valid[OF a, of rest v0] by simp
next
  show "hexatoi ''  -ff'' 5 v0 = Inr (4, - 255)"
    by code_simp
next
  assume "(\<forall>c\<in>set xs. hex_digit c \<or> hex_blank c)
        \<and> \<not> (hex_digit bad \<or> hex_blank bad) \<and> length xs < len"
  then show "hexatoi (xs @ bad # rest') len v0 = Inr (1, hex_accum xs)"
    using hexatoi_invalid[of xs bad len rest' v0] by simp
next
  assume "\<exists>c\<in>set xs. \<not> (hex_digit c \<or> hex_blank c)"
  then obtain ys bad zs where
    xs: "xs = ys @ bad # zs" and bad: "\<not> (hex_digit bad \<or> hex_blank bad)"
    and ys: "\<forall>c\<in>set ys. \<not> \<not> (hex_digit c \<or> hex_blank c)"
    using split_list_first_prop[of xs "\<lambda>c. \<not> (hex_digit c \<or> hex_blank c)"] by blast
  from ys have ys': "\<forall>c\<in>set ys. hex_digit c \<or> hex_blank c"
    by simp
  have "hexatoi (ys @ bad # (zs @ rest)) (length xs) v0 = Inr (1, hex_accum ys)"
    using ys' bad by (rule hexatoi_invalid) (simp add: xs)
  then show "map_sum id fst (hexatoi (xs @ rest) (length xs) v0) = Inr 1"
    by (simp add: xs)
qed

theorem hexatoi_permissive_witness:
  "list_all (\<lambda>c. hex_digit c \<or> hex_blank c) ''  -ff''
   \<and> hexatoi ''  -ff'' (length ''  -ff'') 7 = Inr (4, - 255)
   \<and> \<not> (hex_digit (CHR ''x'') \<or> hex_blank (CHR ''x''))
   \<and> hexatoi (''  -ff'' @ ''x'') 9 7 = Inr (1, 255)"
proof -
  have a: "\<forall>c\<in>set ''  -ff''. hex_digit c \<or> hex_blank c"
    by code_simp
  have b: "\<not> (hex_digit (CHR ''x'') \<or> hex_blank (CHR ''x''))"
    by code_simp
  have c: "\<not> (\<forall>c\<in>set ''  -ff''. hex_digit c)" "last_sign_minus ''  -ff''"
    "hex_accum ''  -ff'' = 255"
    by code_simp+
  show ?thesis
    using hexatoi_permissive[of "''  -ff''" "[]" 7 "CHR ''x''" 9 "[]"] a b c
    by simp
qed

text \<open>
  C10. \<open>hexatoi\<close> sets \<open>*value\<close> to 0 on entry and accumulates into it while it scans.
  When it meets a byte \<open>bad\<close> that is no hexadecimal digit, space or sign, after a prefix
  \<open>pre\<close> of such bytes, it returns 1 and \<open>*value\<close> holds the accumulation over \<open>pre\<close>
  (the sign not applied), whatever \<open>*value\<close> held before the call: it is neither left
  unchanged nor restored.
\<close>

theorem hexatoi_failure_keeps_partial_value:
  assumes "\<forall>c\<in>set pre. hex_digit c \<or> hex_blank c"
    and "\<not> (hex_digit bad \<or> hex_blank bad)" and "length pre < len"
  shows "hexatoi (pre @ bad # rest) len v0 = Inr (1, hex_accum pre)"
  using assms by (rule hexatoi_invalid)

theorem hexatoi_failure_keeps_partial_value_witness:
  "list_all (\<lambda>c. hex_digit c \<or> hex_blank c) ''-1f''
   \<and> \<not> (hex_digit (CHR ''x'') \<or> hex_blank (CHR ''x''))
   \<and> length ''-1f'' < (5::nat)
   \<and> hexatoi (''-1f'' @ ''x2'') 5 7 = Inr (1, 31)"
proof -
  have a: "\<forall>c\<in>set ''-1f''. hex_digit c \<or> hex_blank c"
    by code_simp
  have b: "\<not> (hex_digit (CHR ''x'') \<or> hex_blank (CHR ''x''))"
    by code_simp
  have c: "hex_accum ''-1f'' = 31"
    by code_simp
  show ?thesis
    using hexatoi_failure_keeps_partial_value[OF a b, of 5 "''2''" 7] a b c
    by simp
qed

subsection \<open>\<open>fitoa\<close>\<close>

lemma digit_cases:
  "d < 10 \<Longrightarrow> d \<in> {0, 1, 2, 3, 4, 5, 6, 7, 8, 9 :: nat}"
  by auto

lemma fitoa_digit:
  assumes "d < 10"
  shows "char_of (of_char (CHR ''0'') + d) = ''0123456789'' ! d"
  using digit_cases[OF assms] by (elim insertE emptyE) (simp_all add: char_of_eq_iff)

lemma length_decimal_pos: "0 < length (decimal n)"
  by (subst decimal.simps) simp

lemma decimal_small: "n < 10 \<Longrightarrow> decimal n = [''0123456789'' ! n]"
  by (subst decimal.simps) simp

lemma decimal_large:
  "10 \<le> n \<Longrightarrow> decimal n = decimal (n div 10) @ [''0123456789'' ! (n mod 10)]"
  by (subst decimal.simps) simp

lemma fitoa_fill_run:
  "p \<le> length s \<Longrightarrow> fitoa_fill s p c = Inr (replicate p c @ drop p s)"
proof (induction p arbitrary: s)
  case 0
  show ?case by simp
next
  case (Suc p)
  then have lt: "p < length s" by simp
  have "fitoa_fill (s[p := c]) p c = Inr (replicate p c @ drop p (s[p := c]))"
    using lt by (intro Suc.IH) simp
  also have "drop p (s[p := c]) = c # drop (Suc p) s"
    using lt by (simp add: drop_update_cancel upd_conv_take_nth_drop)
  finally show ?case
    using lt by (simp add: replicate_app_Cons_same)
qed

lemma word_div10_zero: "(n :: 32 word) div 10 = 0 \<longleftrightarrow> unat n < 10"
proof -
  have "n div 10 = 0 \<longleftrightarrow> unat (n div 10) = 0"
    by (simp add: unat_eq_0)
  also have "\<dots> \<longleftrightarrow> unat n div 10 = 0"
    by (simp add: unat_div)
  also have "\<dots> \<longleftrightarrow> unat n < 10"
    by (simp add: div_eq_0_iff)
  finally show ?thesis .
qed

lemma fitoa_loop_run:
  "p \<le> wid \<Longrightarrow> wid \<le> length s \<Longrightarrow>
   fitoa_loop n wid s p =
     Inr (if length (decimal (unat n)) \<le> p
          then replicate (p - length (decimal (unat n))) (CHR '' '') @ decimal (unat n) @ drop p s
          else replicate wid (CHR ''*'') @ drop wid s)"
proof (induction n wid s p rule: fitoa_loop.induct)
  case (1 n wid s p)
  let ?dg = "''0123456789'' ! (unat n mod 10)"
  show ?case
  proof (cases "p = 0")
    case True
    then show ?thesis
      using "1.prems" length_decimal_pos[of "unat n"]
      by (subst fitoa_loop.simps) (simp add: fitoa_fill_run)
  next
    case False
    then have p: "p - 1 < length s" "\<not> p \<le> 0"
      using "1.prems" by simp_all
    have dg: "char_of (of_char (CHR ''0'') + unat (n mod 10)) = ?dg"
      by (simp only: unat_mod) (simp add: fitoa_digit del: of_char_Char)
    have w: "wr s (p - 1) (char_of (of_char (CHR ''0'') + unat (n mod 10))) = Inr (s[p - 1 := ?dg])"
      using p(1) by (simp only: dg) simp
    have dr: "drop (p - 1) (s[p - 1 := ?dg]) = ?dg # drop p s"
      using p False by (simp add: upd_conv_take_nth_drop)
    show ?thesis
    proof (cases "n div 10 = 0")
      case True
      then have small: "unat n < 10" by (simp add: word_div10_zero)
      have d: "decimal (unat n) = [?dg]"
        using small by (simp add: decimal_small)
      have fill: "fitoa_fill (s[p - 1 := ?dg]) (p - 1) (CHR '' '')
              = Inr (replicate (p - 1) (CHR '' '') @ drop (p - 1) (s[p - 1 := ?dg]))"
        using p(1) by (intro fitoa_fill_run) simp
      show ?thesis
        apply (subst fitoa_loop.simps)
        apply (simp only: p if_False w sum.case True simp_thms fill dr d)
        using False apply simp
        done
    next
      case nz: False
      then have large: "10 \<le> unat n" by (simp add: word_div10_zero)
      have d: "decimal (unat n) = decimal (unat (n div 10)) @ [?dg]"
        using large by (simp add: decimal_large unat_div)
      have IH: "fitoa_loop (n div 10) wid (s[p - 1 := ?dg]) (p - 1) =
          Inr (if length (decimal (unat (n div 10))) \<le> p - 1
               then replicate (p - 1 - length (decimal (unat (n div 10)))) (CHR '' '')
                      @ decimal (unat (n div 10)) @ drop (p - 1) (s[p - 1 := ?dg])
               else replicate wid (CHR ''*'') @ drop wid (s[p - 1 := ?dg]))"
        using "1.IH"[OF p(2) w nz] "1.prems" by simp
      have dw: "drop wid (s[p - 1 := ?dg]) = drop wid s"
        using False "1.prems" by simp
      show ?thesis
      proof (cases "length (decimal (unat (n div 10))) \<le> p - 1")
        case True
        then have le: "Suc (length (decimal (unat (n div 10)))) \<le> p"
          using False by simp
        show ?thesis
          apply (subst fitoa_loop.simps)
          apply (simp only: p if_False w sum.case nz not_False_eq_True if_True IH True dr d)
          using le apply simp
          done
      next
        case gt: False
        then have le: "\<not> Suc (length (decimal (unat (n div 10)))) \<le> p"
          using False by simp
        show ?thesis
          apply (subst fitoa_loop.simps)
          apply (simp only: p if_False w sum.case nz not_False_eq_True if_True IH gt dw d)
          using le apply simp
          done
      qed
    qed
  qed
qed

lemma fitoa_run:
  assumes "wid < length s"
  shows "fitoa n wid s =
           Inr ((if length (decimal (unat n)) \<le> wid
                 then replicate (wid - length (decimal (unat n))) (CHR '' '') @ decimal (unat n)
                 else replicate wid (CHR ''*''))
                @ NUL # drop (Suc wid) s)"
proof -
  have w: "wr s wid NUL = Inr (s[wid := NUL])"
    using assms by simp
  have dr: "drop wid (s[wid := NUL]) = NUL # drop (Suc wid) s"
    using assms by (simp add: upd_conv_take_nth_drop)
  have "fitoa_loop n wid (s[wid := NUL]) wid =
     Inr (if length (decimal (unat n)) \<le> wid
          then replicate (wid - length (decimal (unat n))) (CHR '' '') @ decimal (unat n)
                 @ drop wid (s[wid := NUL])
          else replicate wid (CHR ''*'') @ drop wid (s[wid := NUL]))"
    using assms by (intro fitoa_loop_run) simp_all
  then show ?thesis
    by (simp add: fitoa_def w dr)
qed


text \<open>
  C6. For every unsigned 32-bit \<open>n\<close> and every width \<open>wid\<close>, with \<open>s\<close> an object of more than
  \<open>wid\<close> bytes, \<open>fitoa(n, wid, s)\<close> does not fault and leaves in \<open>s\<close> exactly \<open>wid\<close> data
  bytes, then a zero byte at \<open>s[wid]\<close>, then the former bytes: when the decimal
  representation of \<open>n\<close> has \<open>d \<le> wid\<close> digits, the data bytes are \<open>wid - d\<close> spaces and
  those digits; when \<open>d > wid\<close>, they are \<open>wid\<close> asterisks. For \<open>n = 0\<close> and \<open>wid \<ge> 1\<close> they
  are \<open>wid - 1\<close> spaces and \<open>0\<close>.
\<close>

theorem fitoa_right_justified:
  assumes "wid < length s"
  shows "fitoa n wid s =
           Inr ((if length (decimal (unat n)) \<le> wid
                 then replicate (wid - length (decimal (unat n))) (CHR '' '') @ decimal (unat n)
                 else replicate wid (CHR ''*''))
                @ NUL # drop (Suc wid) s)
         \<and> (0 < wid \<longrightarrow>
              fitoa 0 wid s =
                Inr (replicate (wid - 1) (CHR '' '') @ CHR ''0'' # NUL # drop (Suc wid) s))"
proof (intro conjI impI)
  show "fitoa n wid s =
           Inr ((if length (decimal (unat n)) \<le> wid
                 then replicate (wid - length (decimal (unat n))) (CHR '' '') @ decimal (unat n)
                 else replicate wid (CHR ''*''))
                @ NUL # drop (Suc wid) s)"
    using assms by (rule fitoa_run)
next
  assume w: "0 < wid"
  have z: "decimal (unat (0 :: 32 word)) = [CHR ''0'']"
    by (simp add: decimal_small)
  show "fitoa 0 wid s =
          Inr (replicate (wid - 1) (CHR '' '') @ CHR ''0'' # NUL # drop (Suc wid) s)"
    using fitoa_run[OF assms, of 0] w by (simp only: z) simp
qed

theorem fitoa_right_justified_witness:
  "(3::nat) < length ''xxxx''
   \<and> fitoa 12345 3 ''xxxx'' = Inr (''***'' @ [NUL])
   \<and> (4::nat) < length ''xxxxxx''
   \<and> fitoa 7 4 ''xxxxxx'' = Inr (''   7'' @ NUL # ''x'')
   \<and> fitoa 0 4 ''xxxxxx'' = Inr (''   0'' @ NUL # ''x'')"
proof -
  have d: "decimal (unat (12345 :: 32 word)) = ''12345''"
    "decimal (unat (7 :: 32 word)) = ''7''" "decimal (unat (0 :: 32 word)) = ''0''"
    "decimal 12345 = ''12345''" "decimal 7 = ''7''" "decimal 0 = ''0''"
    by code_simp+
  have r: "replicate 3 (CHR ''*'') = ''***''" "replicate 3 (CHR '' '') = ''   ''"
    by code_simp+
  show ?thesis
    using fitoa_right_justified[of 3 "''xxxx''" 12345]
      fitoa_right_justified[of 4 "''xxxxxx''" 7]
    by (simp add: d r)
qed

subsection \<open>Rendering with \<open>numzcat\<close>, parsing with \<open>decatoi\<close>\<close>

lemma decimal_digits: "set (decimal n) \<subseteq> set ''0123456789''"
proof (induction n rule: decimal.induct)
  case (1 n)
  have nth: "''0123456789'' ! d \<in> set ''0123456789''" if "d < 10" for d
    using that by (intro nth_mem) simp
  show ?case
  proof (cases "n < 10")
    case True
    then show ?thesis
      using nth[of n] by (simp only: decimal_small) simp
  next
    case False
    then have "set (decimal (n div 10)) \<subseteq> set ''0123456789''"
      by (rule "1.IH")
    moreover have "''0123456789'' ! (n mod 10) \<in> set ''0123456789''"
      by (rule nth) simp
    ultimately show ?thesis
      using False by (simp only: decimal_large[of n]) simp
  qed
qed

lemma length_decimal_le: "n < 10 ^ k \<Longrightarrow> 0 < k \<Longrightarrow> length (decimal n) \<le> k"
proof (induction k arbitrary: n)
  case 0
  then show ?case by simp
next
  case (Suc k)
  show ?case
  proof (cases "n < 10")
    case True
    then show ?thesis by (simp add: decimal_small)
  next
    case False
    then have k: "0 < k"
      using Suc.prems by (cases k) simp_all
    have "n div 10 < 10 ^ k"
      using Suc.prems by (simp add: less_mult_imp_div_less mult.commute)
    then have "length (decimal (n div 10)) \<le> k"
      using k by (rule Suc.IH)
    then show ?thesis
      using False by (simp add: decimal_large)
  qed
qed

lemma length_decimal_u32: "length (decimal (unat (n :: 32 word))) \<le> 10"
proof -
  have "unat n < 2 ^ 32"
    using unsigned_less[of n] by simp
  then have "unat n < 10 ^ 10"
    by simp
  then show ?thesis
    by (rule length_decimal_le) simp
qed

lemma numzcat_skip_Cons:
  "numzcat_skip (c # b) (Suc p) =
     (case numzcat_skip b p of Inl e \<Rightarrow> Inl e | Inr k \<Rightarrow> Inr (Suc k))"
proof (induction b p rule: numzcat_skip.induct)
  case (1 b p)
  show ?case
    apply (subst numzcat_skip.simps)
    apply (subst (2) numzcat_skip.simps)
    apply (auto split: sum.splits simp: "1")
    done
qed

lemma numzcat_skip_run:
  "c \<noteq> CHR '' '' \<Longrightarrow> numzcat_skip (replicate k (CHR '' '') @ c # rest) 0 = Inr k"
proof (induction k)
  case 0
  then show ?case by (subst numzcat_skip.simps) simp
next
  case (Suc k)
  then show ?case
    by (subst numzcat_skip.simps) (simp add: numzcat_skip_Cons)
qed

lemma numzcat_unpadded_run: "numzcat_unpadded n = Inr (decimal (unat n) @ [NUL])"
proof -
  let ?ds = "decimal (unat n)"
  let ?k = "11 - length ?ds"
  have len: "length ?ds \<le> 11"
    using length_decimal_u32[of n] by simp
  have "fitoa n 11 (replicate 12 NUL) =
     Inr ((if length ?ds \<le> 11 then replicate ?k (CHR '' '') @ ?ds
           else replicate 11 (CHR ''*'')) @ NUL # drop (Suc 11) (replicate 12 NUL))"
    by (rule fitoa_run) simp
  then have f: "fitoa n 11 (replicate 12 NUL) = Inr (replicate ?k (CHR '' '') @ ?ds @ [NUL])"
    using len by simp
  obtain c cs where ds: "?ds = c # cs"
    using length_decimal_pos[of "unat n"] by (cases ?ds) simp_all
  have "c \<in> set ''0123456789''"
    using decimal_digits[of "unat n"] ds by auto
  then have c: "c \<noteq> CHR '' ''"
    by auto
  have s: "numzcat_skip (replicate ?k (CHR '' '') @ ?ds @ [NUL]) 0 = Inr ?k"
    using numzcat_skip_run[OF c, of ?k "cs @ [NUL]"] by (simp add: ds)
  show ?thesis
    by (simp add: numzcat_unpadded_def f s)
qed


lemma strlen_from_Cons:
  "strlen_from (c # s) (Suc i) =
     (case strlen_from s i of Inl e \<Rightarrow> Inl e | Inr k \<Rightarrow> Inr (Suc k))"
proof (induction s i rule: strlen_from.induct)
  case (1 s i)
  show ?case
    apply (subst strlen_from.simps)
    apply (subst (2) strlen_from.simps)
    apply (auto split: sum.splits simp: "1")
    done
qed

lemma strlen_run: "NUL \<notin> set str \<Longrightarrow> strlen (str @ NUL # rest) = Inr (length str)"
  unfolding strlen_def
proof (induction str)
  case Nil
  show ?case by (subst strlen_from.simps) simp
next
  case (Cons c str)
  then show ?case
    by (subst strlen_from.simps) (auto simp: strlen_from_Cons)
qed

lemma strncpy_loop_run:
  "i \<le> n \<Longrightarrow> n \<le> length src \<Longrightarrow> n \<le> length dst \<Longrightarrow> NUL \<notin> set (take n src) \<Longrightarrow>
   strncpy_loop dst src i n = Inr (take i dst @ drop i (take n src) @ drop n dst)"
proof (induction dst src i n rule: strncpy_loop.induct)
  case (1 dst src i n)
  show ?case
  proof (cases "i < n")
    case False
    with "1.prems" have "i = n" by simp
    then show ?thesis
      using "1.prems" by (subst strncpy_loop.simps) simp
  next
    case True
    have r: "rd src i = Inr (src ! i)"
      using True "1.prems" by simp
    have "src ! i \<in> set (take n src)"
      using True "1.prems" by (metis length_take min.absorb2 nth_mem nth_take)
    with "1.prems" have nz: "src ! i \<noteq> NUL"
      by metis
    have w: "wr dst i (src ! i) = Inr (dst[i := src ! i])"
      using True "1.prems" by simp
    have IH: "strncpy_loop (dst[i := src ! i]) src (Suc i) n =
        Inr (take (Suc i) (dst[i := src ! i]) @ drop (Suc i) (take n src)
               @ drop n (dst[i := src ! i]))"
      using "1.IH"[OF True r nz w] True "1.prems" by simp
    have a: "take (Suc i) (dst[i := src ! i]) = take i dst @ [src ! i]"
      using True "1.prems" by (simp add: take_Suc_conv_app_nth)
    have b: "drop n (dst[i := src ! i]) = drop n dst"
      using True by simp
    have c: "drop i (take n src) = src ! i # drop (Suc i) (take n src)"
      using True "1.prems" by (simp add: Cons_nth_drop_Suc[symmetric])
    show ?thesis
      apply (subst strncpy_loop.simps)
      apply (simp only: True if_True r sum.case nz if_False w IH a b c)
      apply simp
      done
  qed
qed

lemma strncpy_run:
  "n \<le> length src \<Longrightarrow> n \<le> length dst \<Longrightarrow> NUL \<notin> set (take n src) \<Longrightarrow>
   strncpy dst src n = Inr (take n src @ drop n dst)"
  unfolding strncpy_def by (simp add: strncpy_loop_run)

lemma int_cast_small:
  assumes "n \<le> 20"
  shows "int_cast n = int n"
proof -
  have "int n mod 2 ^ 32 = int n"
    using assms by (intro mod_pos_pos_trivial) simp_all
  moreover have "int n < 2 ^ 31"
    using assms by simp
  ultimately show ?thesis
    unfolding int_cast_def Let_def by (simp only: if_True)
qed

lemma casts_small:
  assumes "n \<le> 20"
  shows "size_cast (int_cast n) = n"
proof -
  have "int n mod 2 ^ 64 = int n"
    using assms by (intro mod_pos_pos_trivial) simp_all
  then show ?thesis
    unfolding size_cast_def by (simp only: int_cast_small[OF assms] nat_int)
qed


lemma digit_char_facts:
  assumes "c \<in> set ''0123456789''"
  shows "isdigit c" and "\<not> isspace c" and "c \<noteq> CHR ''-''" and "c \<noteq> CHR ''+''"
    and "c \<noteq> NUL"
  using assms by (auto simp: isdigit_def isspace_def)

lemma skip_space_none: "\<not> isspace c \<Longrightarrow> skip_space (c # s) 0 = Inr 0"
  by (subst skip_space.simps) simp

lemma strtoll_digits_run:
  "\<forall>d\<in>set ds. isdigit d \<Longrightarrow> \<not> isdigit c \<Longrightarrow>
   strtoll_digits (pre @ ds @ c # rest) (length pre) acc =
     Inr (foldl strtoll_step acc ds,
          length pre + length ds)"
proof (induction ds arbitrary: pre acc)
  case Nil
  then show ?case
    by (subst strtoll_digits.simps) (simp add: rd_def)
next
  case (Cons d ds)
  have "strtoll_digits ((pre @ [d]) @ ds @ c # rest) (length (pre @ [d])) acc' =
     Inr (foldl strtoll_step acc' ds,
          length (pre @ [d]) + length ds)" for acc'
    using Cons.prems by (intro Cons.IH) simp_all
  then show ?case
    using Cons.prems
    by (subst strtoll_digits.simps) (simp add: rd_def strtoll_step_def del: of_char_Char)
qed

lemma digit_val:
  assumes "d < 10"
  shows "(of_char (''0123456789'' ! d) :: int) - of_char (CHR ''0'') = int d"
  using digit_cases[OF assms] by (elim insertE emptyE) simp_all

lemma decimal_value:
  "foldl strtoll_step 0 (decimal m) = int m"
proof (induction m rule: decimal.induct)
  case (1 m)
  show ?case
  proof (cases "m < 10")
    case True
    then show ?thesis
      by (simp only: decimal_small) (simp add: strtoll_step_def digit_val del: of_char_Char)
  next
    case False
    then have IH: "foldl strtoll_step 0 (decimal (m div 10)) = int (m div 10)"
      by (rule "1.IH")
    have dv: "(of_char (''0123456789'' ! (m mod 10)) :: int) - of_char (CHR ''0'')
                = int (m mod 10)"
      by (rule digit_val) simp
    have "foldl strtoll_step 0 (decimal m)
            = 10 * int (m div 10) + int (m mod 10)"
      using False
      by (simp only: decimal_large[of m] foldl_append foldl_Cons foldl_Nil IH
            strtoll_step_def dv)
    also have "\<dots> = int (10 * (m div 10) + m mod 10)"
      by (simp only: of_nat_add of_nat_mult of_nat_numeral)
    also have "\<dots> = int m"
      by simp
    finally show ?thesis .
  qed
qed

lemma decatoi_decimal:
  assumes "m < 2 ^ 32"
  shows "decatoi (decimal m @ NUL # rest) (length (decimal m)) value = Inr (1, word_of_nat m)"
proof -
  let ?ds = "decimal m"
  let ?L = "length ?ds"
  let ?zs = "replicate (20 - ?L) NUL"
  let ?buf = "?ds @ NUL # ?zs"
  have "m < 10 ^ 10"
    using assms by simp
  then have L10: "?L \<le> 10"
    by (rule length_decimal_le) simp
  then have L20: "?L \<le> 20" "\<not> 20 < ?L"
    by simp_all
  obtain c cs where ds: "?ds = c # cs"
    using length_decimal_pos[of m] by (cases ?ds) simp_all
  have dig: "\<forall>d\<in>set ?ds. d \<in> set ''0123456789''"
    using decimal_digits[of m] by blast
  have c: "c \<in> set ''0123456789''"
    using dig ds by simp
  have nonul: "NUL \<notin> set ?ds"
    using dig digit_char_facts(5) by blast
  have rep: "replicate (21 - ?L) NUL = NUL # ?zs"
    using L20 by (simp add: Suc_diff_le flip: replicate_Suc)
  have cp: "strncpy (replicate 21 NUL) (?ds @ NUL # rest) ?L = Inr ?buf"
    using L20 nonul by (simp add: strncpy_run rep)
  have wz: "wr ?buf ?L NUL = Inr ?buf"
    by (simp add: wr_def)
  have sk: "skip_space ?buf 0 = Inr 0"
    using digit_char_facts(2)[OF c] by (simp add: ds skip_space_none)
  have r0: "rd ?buf 0 = Inr c"
    by (simp add: ds)
  have "strtoll_digits ([] @ ?ds @ NUL # ?zs) (length ([] :: char list)) 0 =
     Inr (foldl strtoll_step 0 ?ds,
          length ([] :: char list) + ?L)"
    using dig digit_char_facts(1) by (intro strtoll_digits_run) (auto simp: isdigit_def)
  then have dg: "strtoll_digits ?buf 0 0 = Inr (int m, ?L)"
    by (simp add: decimal_value)
  have Lpos: "?L \<noteq> 0"
    using length_decimal_pos[of m] by simp
  have "int m < 2 ^ 32"
    using assms by (simp only: of_nat_less_numeral_power_cancel_iff)
  then have rng: "\<not> LLONG_MAX < int m" "\<not> int m < LLONG_MIN"
    by (simp_all add: LLONG_MAX_def LLONG_MIN_def)
  have conv: "strtoll ?buf 0 = Inr (word_of_int (int m), ?L, 0)"
    unfolding strtoll_def
    by (simp only: sk r0 sum.case digit_char_facts(3,4)[OF c] simp_thms if_False Let_def dg
          prod.case Lpos rng)
  have rL: "rd ?buf ?L = Inr NUL"
    by (simp add: rd_def nth_append)
  have e: "(0::int) \<noteq> EINVAL" "(0::int) \<noteq> ERANGE"
    by (simp_all add: EINVAL_def ERANGE_def)
  show ?thesis
    unfolding decatoi_def
    by (simp only: L20 if_False casts_small[OF L20(1)] cp sum.case wz conv prod.case e
          simp_thms rL if_True of_int_of_nat_eq)
qed

lemma ucast_u32_u64: "(word_of_int (uint (n :: 32 word)) :: 64 word) = ucast n"
  by simp

lemma sint_ucast_u32: "sint (ucast (n :: 32 word) :: 64 word) = int (unat n)"
proof -
  have "uint n < 2 ^ 32"
    using uint_lt2p[of n] by simp
  also have "(2::int) ^ 32 \<le> 2 ^ (LENGTH(64) - 1)"
    by simp
  finally have hi: "uint n < 2 ^ (LENGTH(64) - 1)" .
  have "- (2 ^ (LENGTH(64) - 1)) \<le> (0::int)"
    by simp
  also have "0 \<le> uint n"
    by simp
  finally have lo: "- (2 ^ (LENGTH(64) - 1)) \<le> uint n" .
  have "sint (word_of_int (uint n) :: 64 word) = signed_take_bit (LENGTH(64) - 1) (uint n)"
    by (rule sint_sbintrunc')
  also have "\<dots> = uint n"
    using lo hi by (rule signed_take_bit_int_eq_self)
  finally show ?thesis
    by (simp only: ucast_u32_u64) simp
qed

text \<open>
  C7. For every unsigned 32-bit \<open>n\<close>: \<open>numzcat\<close> renders \<open>n\<close> with \<open>fitoa\<close> into a field of
  width 11 and skips the leading spaces, which leaves the decimal representation of \<open>n\<close>,
  zero-terminated; \<open>decatoi\<close> on that string and its \<open>strlen\<close> returns 1 and stores \<open>n\<close>
  (the 64-bit value whose signed reading is \<open>n\<close>), whatever \<open>*value\<close> held before.
\<close>

theorem decatoi_numzcat_roundtrip:
  "\<exists>digits. numzcat_unpadded n = Inr (digits @ [NUL])
     \<and> digits = decimal (unat n)
     \<and> strlen (digits @ [NUL]) = Inr (length digits)
     \<and> decatoi (digits @ [NUL]) (length digits) value = Inr (1, ucast n)
     \<and> sint (ucast n :: 64 word) = int (unat n)"
proof -
  let ?ds = "decimal (unat n)"
  have lt: "unat n < 2 ^ 32"
    using unsigned_less[of n] by simp
  have nonul: "NUL \<notin> set ?ds"
    using decimal_digits[of "unat n"] digit_char_facts(5) by blast
  have a: "numzcat_unpadded n = Inr (?ds @ [NUL])"
    by (rule numzcat_unpadded_run)
  have b: "strlen (?ds @ [NUL]) = Inr (length ?ds)"
    using nonul by (rule strlen_run)
  have u: "(word_of_nat (unat n) :: 64 word) = ucast n"
    by simp
  have c: "decatoi (?ds @ [NUL]) (length ?ds) value = Inr (1, ucast n)"
    using decatoi_decimal[OF lt, of "[]" "value"] by (simp only: u)
  have s: "sint (ucast n :: 64 word) = int (unat n)"
    by (rule sint_ucast_u32)
  from a b c s show ?thesis
    by blast
qed

theorem decatoi_numzcat_roundtrip_witness:
  "numzcat_unpadded 4294967295 = Inr (''4294967295'' @ [NUL])
   \<and> decatoi (''4294967295'' @ [NUL]) (length ''4294967295'') 0 = Inr (1, 4294967295)"
proof -
  have d: "decimal (unat (4294967295 :: 32 word)) = ''4294967295''"
    by code_simp
  have u: "(ucast (4294967295 :: 32 word) :: 64 word) = 4294967295"
    by simp
  show ?thesis
    using decatoi_numzcat_roundtrip[of 4294967295 0] unfolding d u by blast
qed

end
